theory Spec2Isabelle
  imports Main
begin

section \<open>Strings of Unicode code points\<close>

text \<open>
  A Python \<open>str\<close> is a sequence of Unicode code points, and \<open>len\<close>, indexing and
  \<open>==\<close> work on code points. A code point is a natural number here and a string is a
  list of them. Several keys of the tables below are longer than one code point, so the
  tables are keyed by strings, as the dictionaries of the source are.
\<close>

type_synonym uchar = nat
type_synonym ustring = "uchar list"

definition of_ascii :: "string \<Rightarrow> ustring" where
  "of_ascii s = map of_char s"

text \<open>
  The whitespace of \<open>str.strip()\<close>, \<open>str.isspace()\<close> and the pattern classes \<open>\s\<close>
  and \<open>\S\<close> of \<open>re\<close> on a \<open>str\<close> is one and the same set of code points in CPython:
  U+0009..U+000D, U+001C..U+0020, U+0085, U+00A0, U+1680, U+2000..U+200A, U+2028,
  U+2029, U+202F, U+205F and U+3000.
\<close>

definition isspace_char :: "uchar \<Rightarrow> bool" where
  "isspace_char c \<longleftrightarrow>
     (0x9 \<le> c \<and> c \<le> 0xD) \<or> (0x1C \<le> c \<and> c \<le> 0x20) \<or> c = 0x85 \<or> c = 0xA0 \<or>
     c = 0x1680 \<or> (0x2000 \<le> c \<and> c \<le> 0x200A) \<or> c = 0x2028 \<or> c = 0x2029 \<or>
     c = 0x202F \<or> c = 0x205F \<or> c = 0x3000"

text \<open>\<open>s.strip()\<close>: the string without its leading and trailing whitespace.\<close>

definition strip :: "ustring \<Rightarrow> ustring" where
  "strip s = rev (dropWhile isspace_char (rev (dropWhile isspace_char s)))"

text \<open>\<open>s.isspace()\<close>: at least one character, and all of them whitespace.\<close>

definition isspace :: "ustring \<Rightarrow> bool" where
  "isspace s \<longleftrightarrow> s \<noteq> [] \<and> list_all isspace_char s"

section \<open>The two tables\<close>

text \<open>
  \<open>_create_transliteration_map\<close>, in the order of the source. The keys of the three
  nukta letters are written in the source file as two code points each (the base letter
  followed by U+09BC). The hasanta U+09CD maps to the empty string.
\<close>

definition virama :: uchar where
  "virama = 0x9CD"

definition transliteration_map_entries :: "(ustring \<times> ustring) list" where
  "transliteration_map_entries = [
    ([0x985], of_ascii ''o''),
    ([0x986], of_ascii ''a''),
    ([0x987], of_ascii ''i''),
    ([0x988], of_ascii ''ee''),
    ([0x989], of_ascii ''u''),
    ([0x98A], of_ascii ''oo''),
    ([0x98B], of_ascii ''ri''),
    ([0x98F], of_ascii ''e''),
    ([0x990], of_ascii ''oi''),
    ([0x993], of_ascii ''o''),
    ([0x994], of_ascii ''ou''),
    ([0x9BE], of_ascii ''a''),
    ([0x9BF], of_ascii ''i''),
    ([0x9C0], of_ascii ''ee''),
    ([0x9C1], of_ascii ''u''),
    ([0x9C2], of_ascii ''oo''),
    ([0x9C3], of_ascii ''ri''),
    ([0x9C7], of_ascii ''e''),
    ([0x9C8], of_ascii ''oi''),
    ([0x9CB], of_ascii ''o''),
    ([0x9CC], of_ascii ''ou''),
    ([0x995], of_ascii ''k''),
    ([0x996], of_ascii ''kh''),
    ([0x997], of_ascii ''g''),
    ([0x998], of_ascii ''gh''),
    ([0x999], of_ascii ''ng''),
    ([0x99A], of_ascii ''ch''),
    ([0x99B], of_ascii ''chh''),
    ([0x99C], of_ascii ''j''),
    ([0x99D], of_ascii ''jh''),
    ([0x99E], of_ascii ''ny''),
    ([0x99F], of_ascii ''t''),
    ([0x9A0], of_ascii ''th''),
    ([0x9A1], of_ascii ''d''),
    ([0x9A2], of_ascii ''dh''),
    ([0x9A3], of_ascii ''n''),
    ([0x9A4], of_ascii ''t''),
    ([0x9A5], of_ascii ''th''),
    ([0x9A6], of_ascii ''d''),
    ([0x9A7], of_ascii ''dh''),
    ([0x9A8], of_ascii ''n''),
    ([0x9AA], of_ascii ''p''),
    ([0x9AB], of_ascii ''ph''),
    ([0x9AC], of_ascii ''b''),
    ([0x9AD], of_ascii ''bh''),
    ([0x9AE], of_ascii ''m''),
    ([0x9AF], of_ascii ''y''),
    ([0x9B0], of_ascii ''r''),
    ([0x9B2], of_ascii ''l''),
    ([0x9B6], of_ascii ''sh''),
    ([0x9B7], of_ascii ''sh''),
    ([0x9B8], of_ascii ''s''),
    ([0x9B9], of_ascii ''h''),
    ([0x9A1, 0x9BC], of_ascii ''r''),
    ([0x9A2, 0x9BC], of_ascii ''rh''),
    ([0x9AF, 0x9BC], of_ascii ''y''),
    ([0x9CE], of_ascii ''t''),
    ([0x982], of_ascii ''ng''),
    ([0x983], of_ascii ''h''),
    ([0x9CD], of_ascii ''''),
    ([0x9E6], of_ascii ''0''),
    ([0x9E7], of_ascii ''1''),
    ([0x9E8], of_ascii ''2''),
    ([0x9E9], of_ascii ''3''),
    ([0x9EA], of_ascii ''4''),
    ([0x9EB], of_ascii ''5''),
    ([0x9EC], of_ascii ''6''),
    ([0x9ED], of_ascii ''7''),
    ([0x9EE], of_ascii ''8''),
    ([0x9EF], of_ascii ''9''),
    ([0x964], of_ascii ''.''),
    ([0x965], of_ascii ''..'')
  ]"

definition bengali_to_english_map :: "ustring \<rightharpoonup> ustring" where
  "bengali_to_english_map = map_of transliteration_map_entries"

text \<open>\<open>_create_word_exceptions\<close>, in the order of the source.\<close>

definition word_exceptions_entries :: "(ustring \<times> ustring) list" where
  "word_exceptions_entries = [
    ([0x9AA, 0x9A5, 0x9C7, 0x9B0], of_ascii ''pother''),
    ([0x9AA, 0x9BE, 0x981, 0x99A, 0x9BE, 0x9B2, 0x9C0], of_ascii ''pachali''),
    ([0x9A8, 0x9BF, 0x9B6, 0x9CD, 0x99A, 0x9BF, 0x9A8, 0x9CD, 0x9A6, 0x9BF, 0x9AA, 0x9C1, 0x9B0], of_ascii ''nishchindipur''),
    ([0x997, 0x9CD, 0x9B0, 0x9BE, 0x9AE, 0x9C7, 0x9B0], of_ascii ''gramer''),
    ([0x98F, 0x995, 0x9C7, 0x9AC, 0x9BE, 0x9B0, 0x9C7], of_ascii ''ekebare''),
    ([0x989, 0x9A4, 0x9CD, 0x9A4, 0x9B0, 0x9AA, 0x9CD, 0x9B0, 0x9BE, 0x9A8, 0x9CD, 0x9A4, 0x9C7], of_ascii ''uttarprante''),
    ([0x9AC, 0x9BE, 0x982, 0x9B2, 0x9BE], of_ascii ''bangla''),
    ([0x9AD, 0x9BE, 0x9B7, 0x9BE], of_ascii ''bhasha''),
    ([0x9B8, 0x9BE, 0x9B9, 0x9BF, 0x9A4, 0x9CD, 0x9AF], of_ascii ''sahitya''),
    ([0x995, 0x9AC, 0x9BF, 0x9A4, 0x9BE], of_ascii ''kobita''),
    ([0x997, 0x9B2, 0x9CD, 0x9AA], of_ascii ''golpo''),
    ([0x989, 0x9AA, 0x9A8, 0x9CD, 0x9AF, 0x9BE, 0x9B8], of_ascii ''uponnyas''),
    ([0x9B2, 0x9C7, 0x996, 0x995], of_ascii ''lekhok''),
    ([0x995, 0x9AC, 0x9BF], of_ascii ''kobi'')
  ]"

definition word_exceptions :: "ustring \<rightharpoonup> ustring" where
  "word_exceptions = map_of word_exceptions_entries"

section \<open>The word transliterator\<close>

text \<open>\<open>transliterate_character\<close>: \<open>dict.get(char, char)\<close>, the argument itself on a miss.\<close>

definition transliterate_character :: "ustring \<Rightarrow> ustring" where
  "transliterate_character char =
     (case bengali_to_english_map char of Some v \<Rightarrow> v | None \<Rightarrow> char)"

text \<open>
  The test of the conjunct branch,
  \<open>i < len(clean_word) - 2 and clean_word[i + 1] == hasanta\<close>. The subtraction is on
  Python integers and may go below zero. The second conjunct is only read when the
  first holds, where \<open>i + 1\<close> is in range.
\<close>

definition is_conjunct :: "ustring \<Rightarrow> nat \<Rightarrow> bool" where
  "is_conjunct clean_word i \<longleftrightarrow>
     int i < int (length clean_word) - 2 \<and> clean_word ! (i + 1) = virama"

text \<open>
  One pass through the body of the \<open>while\<close> loop, on the loop state \<open>(i, result)\<close>.
  It is only run for \<open>i < len(clean_word)\<close>.
\<close>

definition loop_body :: "ustring \<Rightarrow> nat \<times> ustring \<Rightarrow> nat \<times> ustring" where
  "loop_body clean_word st =
     (case st of (i, result) \<Rightarrow>
        let char = [clean_word ! i] in
        if is_conjunct clean_word i then
          let first_consonant = transliterate_character char;
              second_consonant = transliterate_character [clean_word ! (i + 2)]
          in (i + 3, result @ first_consonant @ second_consonant)
        else (i + 1, result @ transliterate_character char))"

function while_loop :: "ustring \<Rightarrow> nat \<times> ustring \<Rightarrow> ustring" where
  "while_loop clean_word (i, result) =
     (if i < length clean_word then while_loop clean_word (loop_body clean_word (i, result))
      else result)"
  by pat_completeness auto
termination
  by (relation "measure (\<lambda>(w, i, r). length w - i)")
     (auto simp: loop_body_def is_conjunct_def Let_def)

declare while_loop.simps [simp del]

text \<open>
  The states \<open>(i, result)\<close> at which the body of the loop runs, in the order in which
  the scan goes through them, from a given state on. The scan of a word starts at
  \<open>(0, [])\<close>; an index that is in none of these states is never the \<open>i\<close> of a pass.
\<close>

function scan_states :: "ustring \<Rightarrow> nat \<times> ustring \<Rightarrow> (nat \<times> ustring) list" where
  "scan_states clean_word (i, result) =
     (if i < length clean_word then
        (i, result) # scan_states clean_word (loop_body clean_word (i, result))
      else [])"
  by pat_completeness auto
termination
  by (relation "measure (\<lambda>(w, i, r). length w - i)")
     (auto simp: loop_body_def is_conjunct_def Let_def)

declare scan_states.simps [simp del]

text \<open>The indices the scan of a word visits: the values of \<open>i\<close> at which the body runs.\<close>

definition visited :: "ustring \<Rightarrow> nat set" where
  "visited clean_word = fst ` set (scan_states clean_word (0, []))"

definition transliterate_word :: "ustring \<Rightarrow> ustring" where
  "transliterate_word word =
     (let clean_word = strip word in
      case word_exceptions clean_word of
        Some v \<Rightarrow> v
      | None \<Rightarrow> while_loop clean_word (0, []))"

section \<open>The text transliterator\<close>

text \<open>
  \<open>re.findall(r'\S+|\s+', text)\<close>: at each position the first alternative takes the
  longest run of non-whitespace; where the character is whitespace the second takes the
  longest run of whitespace. The search goes on after the match.
\<close>

function findall_runs :: "ustring \<Rightarrow> ustring list" where
  "findall_runs [] = []"
| "findall_runs (c # cs) =
     (if \<not> isspace_char c then
        (c # takeWhile (\<lambda>x. \<not> isspace_char x) cs)
          # findall_runs (dropWhile (\<lambda>x. \<not> isspace_char x) cs)
      else
        (c # takeWhile isspace_char cs) # findall_runs (dropWhile isspace_char cs))"
  by pat_completeness auto
termination
  by (relation "measure length") (auto simp: length_dropWhile_le less_Suc_eq_le)

text \<open>
  The body of the \<open>for\<close> loop of \<open>transliterate_text\<close>: a token of whitespace is kept
  as it is, any other token goes through \<open>transliterate_word\<close>.
\<close>

definition transliterate_token :: "ustring \<Rightarrow> ustring" where
  "transliterate_token word = (if isspace word then word else transliterate_word word)"

definition transliterate_text :: "ustring \<Rightarrow> ustring" where
  "transliterate_text text = concat (map transliterate_token (findall_runs text))"

section \<open>Runs of one class\<close>

text \<open>
  The notions the statements about the partition of a text use: a run is a non-empty
  string whose characters are all whitespace or all non-whitespace, and a list of runs
  alternates when neighbours are of different classes. A list of alternating runs is the
  list of the maximal runs of its concatenation.
\<close>

definition run :: "ustring \<Rightarrow> bool" where
  "run r \<longleftrightarrow> r \<noteq> [] \<and> (list_all isspace_char r \<or> list_all (\<lambda>c. \<not> isspace_char c) r)"

fun alternating :: "ustring list \<Rightarrow> bool" where
  "alternating [] \<longleftrightarrow> True"
| "alternating [r] \<longleftrightarrow> run r"
| "alternating (r # r' # rs) \<longleftrightarrow> run r \<and> (isspace r \<longleftrightarrow> \<not> isspace r') \<and> alternating (r' # rs)"

section \<open>Text extraction with the fallback to OCR\<close>

text \<open>
  The two extraction methods read a file and call PDF and OCR libraries; they are
  collaborators here. Each either returns the text or raises one of the two exceptions
  its docstring names, both of which \<open>except Exception\<close> catches. The direct extraction
  is called at most once, so its outcome is a value; the OCR extraction may be called
  more than once, so its outcome is given per invocation, and the world counts the
  invocations. The lines printed by \<open>smart_extract_text_from_pdf\<close> itself are kept in
  the world too.
\<close>

datatype exn = FileNotFoundError string | Exception string

datatype message =
    RegularSuccessful
  | SwitchingToOcr
  | RegularFailed exn
  | TryingOcr

record world =
  ocr_calls :: nat
  printed :: "message list"

definition print_line :: "message \<Rightarrow> world \<Rightarrow> world" where
  "print_line m s = s\<lparr>printed := printed s @ [m]\<rparr>"

definition extract_text_from_pdf_with_ocr ::
  "(nat \<Rightarrow> exn + ustring) \<Rightarrow> world \<Rightarrow> (exn + ustring) \<times> world" where
  "extract_text_from_pdf_with_ocr ocr s = (ocr (ocr_calls s), s\<lparr>ocr_calls := Suc (ocr_calls s)\<rparr>)"

text \<open>The \<open>except Exception as e\<close> clause of \<open>smart_extract_text_from_pdf\<close>.\<close>

definition except_clause ::
  "(nat \<Rightarrow> exn + ustring) \<Rightarrow> exn \<Rightarrow> world \<Rightarrow> (exn + ustring) \<times> world" where
  "except_clause ocr e s =
     extract_text_from_pdf_with_ocr ocr (print_line TryingOcr (print_line (RegularFailed e) s))"

text \<open>
  The test of the \<open>if\<close>: \<open>len(clean_text) > 50 and any(c.isalnum() for c in clean_text)\<close>.
  \<open>str.isalnum\<close> is a table of the Unicode database and is a parameter.
\<close>

definition meaningful :: "(uchar \<Rightarrow> bool) \<Rightarrow> ustring \<Rightarrow> bool" where
  "meaningful isalnum text \<longleftrightarrow>
     (let clean_text = strip text in length clean_text > 50 \<and> list_ex isalnum clean_text)"

text \<open>
  \<open>smart_extract_text_from_pdf\<close>. The whole body is inside the \<open>try\<close>, the call of the
  OCR extraction in the \<open>else\<close> branch included: an exception it raises there is caught
  by the \<open>except\<close> clause like one of the direct extraction.
\<close>

definition smart_extract_text_from_pdf ::
  "(uchar \<Rightarrow> bool) \<Rightarrow> (exn + ustring) \<Rightarrow> (nat \<Rightarrow> exn + ustring) \<Rightarrow> world
     \<Rightarrow> (exn + ustring) \<times> world" where
  "smart_extract_text_from_pdf isalnum direct ocr s =
     (case direct of
        Inl e \<Rightarrow> except_clause ocr e s
      | Inr text \<Rightarrow>
          if meaningful isalnum text then (Inr text, print_line RegularSuccessful s)
          else
            (case extract_text_from_pdf_with_ocr ocr (print_line SwitchingToOcr s) of
               (Inr t, s') \<Rightarrow> (Inr t, s')
             | (Inl e, s') \<Rightarrow> except_clause ocr e s'))"

definition world0 :: world where
  "world0 = \<lparr>ocr_calls = 0, printed = []\<rparr>"

section \<open>The loop computes the per-character substitution\<close>

lemma transliterate_character_virama: "transliterate_character [virama] = []"
  by (simp add: transliterate_character_def bengali_to_english_map_def
      transliteration_map_entries_def virama_def of_ascii_def)

lemma drop_three:
  assumes "i + 2 < length w"
  shows "drop i w = w ! i # w ! (i + 1) # w ! (i + 2) # drop (i + 3) w"
proof -
  have "drop i w = w ! i # drop (Suc i) w"
    using assms by (simp add: Cons_nth_drop_Suc)
  also have "drop (Suc i) w = w ! (i + 1) # drop (Suc (Suc i)) w"
    using assms by (simp add: Cons_nth_drop_Suc)
  also have "drop (Suc (Suc i)) w = w ! (i + 2) # drop (i + 3) w"
    using assms by (simp add: Cons_nth_drop_Suc numeral_3_eq_3)
  finally show ?thesis .
qed

lemma is_conjunct_iff: "is_conjunct w i \<longleftrightarrow> i + 2 < length w \<and> w ! (i + 1) = virama"
  by (auto simp: is_conjunct_def)

lemma while_loop_eq:
  "i \<le> length w \<Longrightarrow>
   while_loop w (i, r) = r @ concat (map (\<lambda>c. transliterate_character [c]) (drop i w))"
proof (induction w "(i, r)" arbitrary: i r rule: while_loop.induct)
  case (1 w i r)
  show ?case
  proof (cases "i < length w")
    case False
    then have "while_loop w (i, r) = r"
      by (simp add: while_loop.simps[of w i r])
    with False "1.prems" show ?thesis by simp
  next
    case True
    show ?thesis
    proof (cases "is_conjunct w i")
      case conj: True
      then have len: "i + 2 < length w" and v: "w ! Suc i = virama"
        by (simp_all add: is_conjunct_iff)
      have body: "loop_body w (i, r) =
          (i + 3, r @ transliterate_character [w ! i] @ transliterate_character [w ! (i + 2)])"
        using conj by (simp add: loop_body_def)
      have "while_loop w (i, r) = while_loop w (loop_body w (i, r))"
        using True by (simp add: while_loop.simps[of w i r])
      also have "\<dots> = (r @ transliterate_character [w ! i] @ transliterate_character [w ! (i + 2)])
            @ concat (map (\<lambda>c. transliterate_character [c]) (drop (i + 3) w))"
        unfolding body using "1.hyps"[OF True body] len by simp
      also have "\<dots> = r @ concat (map (\<lambda>c. transliterate_character [c]) (drop i w))"
        by (simp add: drop_three[OF len] v transliterate_character_virama)
      finally show ?thesis .
    next
      case simple: False
      have body: "loop_body w (i, r) = (i + 1, r @ transliterate_character [w ! i])"
        using simple by (simp add: loop_body_def)
      have "while_loop w (i, r) = while_loop w (loop_body w (i, r))"
        using True by (simp add: while_loop.simps[of w i r])
      also have "\<dots> = (r @ transliterate_character [w ! i])
            @ concat (map (\<lambda>c. transliterate_character [c]) (drop (i + 1) w))"
        unfolding body using "1.hyps"[OF True body] True by simp
      also have "\<dots> = r @ concat (map (\<lambda>c. transliterate_character [c]) (drop i w))"
        using True by (simp add: Cons_nth_drop_Suc[symmetric])
      finally show ?thesis .
    qed
  qed
qed

section \<open>Stripping\<close>

lemma dropWhile_none: "\<forall>x\<in>set xs. \<not> P x \<Longrightarrow> dropWhile P xs = xs"
  by (cases xs) simp_all

lemma strip_idem: "strip (strip s) = strip s"
proof -
  define t where "t = dropWhile isspace_char s"
  define u where "u = dropWhile isspace_char (rev t)"
  have su: "strip s = rev u"
    by (simp only: strip_def t_def u_def)
  have a: "dropWhile isspace_char (rev u) = rev u"
  proof (cases u)
    case Nil
    then show ?thesis by (simp only: rev.simps dropWhile.simps)
  next
    case (Cons y ys)
    have "rev t = takeWhile isspace_char (rev t) @ u"
      by (simp only: u_def takeWhile_dropWhile_id)
    then have "rev (rev t) = rev (takeWhile isspace_char (rev t) @ u)"
      by (rule arg_cong)
    then have t: "t = rev u @ rev (takeWhile isspace_char (rev t))"
      by (simp only: rev_rev_ident rev_append)
    have "rev u \<noteq> []" using Cons by simp
    then obtain x xs where xu: "rev u = x # xs" by (cases "rev u") auto
    with t have "t = x # (xs @ rev (takeWhile isspace_char (rev t)))" by simp
    then have "hd (dropWhile isspace_char s) = x" and "dropWhile isspace_char s \<noteq> []"
      unfolding t_def by (metis list.sel(1), metis list.distinct(1))
    then have "\<not> isspace_char x"
      using hd_dropWhile by metis
    then show ?thesis by (simp add: xu)
  qed
  have b: "dropWhile isspace_char u = u"
    by (simp only: u_def dropWhile_idem)
  have "strip (rev u) = rev (dropWhile isspace_char (rev (rev u)))"
    by (simp only: strip_def a)
  also have "\<dots> = rev u"
    by (simp only: rev_rev_ident b)
  finally show ?thesis by (simp only: su)
qed

lemma strip_all_space: "list_all isspace_char s \<Longrightarrow> strip s = []"
proof -
  assume "list_all isspace_char s"
  then have "dropWhile isspace_char s = []"
    by (simp add: list_all_iff)
  then show ?thesis by (simp only: strip_def rev.simps dropWhile.simps)
qed

lemma strip_no_space: "\<forall>c\<in>set s. \<not> isspace_char c \<Longrightarrow> strip s = s"
proof -
  assume a: "\<forall>c\<in>set s. \<not> isspace_char c"
  have "dropWhile isspace_char s = s"
    using a by (rule dropWhile_none)
  moreover have "dropWhile isspace_char (rev s) = rev s"
    using a by (intro dropWhile_none) simp
  ultimately show ?thesis by (simp only: strip_def rev_rev_ident)
qed

lemma set_strip: "set (strip s) \<subseteq> set s"
  by (auto simp: strip_def dest!: set_dropWhileD)

lemma strip_pad:
  assumes a: "list_all isspace_char a" and b: "list_all isspace_char b"
  shows "strip (a @ s @ b) = strip s"
proof -
  have a': "\<forall>x\<in>set a. isspace_char x" and b': "\<forall>x\<in>set b. isspace_char x"
    using a b by (simp_all add: list_all_iff)
  have 1: "dropWhile isspace_char (a @ s @ b) = dropWhile isspace_char (s @ b)"
    using a' by simp
  show ?thesis
  proof (cases "\<forall>x\<in>set s. isspace_char x")
    case True
    then have "dropWhile isspace_char (s @ b) = []" using b' by simp
    moreover have "dropWhile isspace_char s = []" using True by simp
    ultimately show ?thesis by (simp only: strip_def 1)
  next
    case False
    then have "dropWhile isspace_char (s @ b) = dropWhile isspace_char s @ b"
      by (metis dropWhile_append1)
    moreover have "dropWhile isspace_char (rev b @ rev (dropWhile isspace_char s))
        = dropWhile isspace_char (rev (dropWhile isspace_char s))"
      by (rule dropWhile_append2) (simp add: b')
    ultimately show ?thesis by (simp only: strip_def 1 rev_append)
  qed
qed

section \<open>What the tables contain\<close>

lemma map_entries_checked:
  "list_all (\<lambda>(k, v). (\<forall>c\<in>set v. \<not> isspace_char c) \<and> (v = [] \<longrightarrow> k = [virama])
      \<and> (\<forall>c\<in>set k. 0x964 \<le> c \<and> c \<le> 0x9EF))
     transliteration_map_entries"
  by (simp add: transliteration_map_entries_def of_ascii_def isspace_char_def virama_def)

lemma map_entry:
  assumes "bengali_to_english_map k = Some v"
  shows "\<forall>c\<in>set v. \<not> isspace_char c" and "v = [] \<longrightarrow> k = [virama]"
    and "\<forall>c\<in>set k. 0x964 \<le> c \<and> c \<le> 0x9EF"
proof -
  have "(k, v) \<in> set transliteration_map_entries"
    using assms unfolding bengali_to_english_map_def by (rule map_of_SomeD)
  with map_entries_checked
  have "(\<forall>c\<in>set v. \<not> isspace_char c) \<and> (v = [] \<longrightarrow> k = [virama])
      \<and> (\<forall>c\<in>set k. 0x964 \<le> c \<and> c \<le> 0x9EF)"
    unfolding list_all_iff by blast
  then show "\<forall>c\<in>set v. \<not> isspace_char c" and "v = [] \<longrightarrow> k = [virama]"
    and "\<forall>c\<in>set k. 0x964 \<le> c \<and> c \<le> 0x9EF"
    by blast+
qed

lemma space_not_key: "isspace_char c \<Longrightarrow> bengali_to_english_map [c] = None"
proof (rule ccontr)
  assume ws: "isspace_char c" and "bengali_to_english_map [c] \<noteq> None"
  then obtain v where "bengali_to_english_map [c] = Some v" by auto
  then have "0x964 \<le> c \<and> c \<le> 0x9EF" using map_entry(3) by fastforce
  with ws show False by (simp add: isspace_char_def)
qed

lemma exception_entries_checked:
  "list_all (\<lambda>(k, v). v \<noteq> [] \<and> (\<forall>c\<in>set v. \<not> isspace_char c) \<and> k \<noteq> []
      \<and> bengali_to_english_map [hd k] \<noteq> None \<and> 3 \<le> length k)
     word_exceptions_entries"
  by (simp add: word_exceptions_entries_def of_ascii_def isspace_char_def
      bengali_to_english_map_def transliteration_map_entries_def)

lemma exception_entry:
  assumes "word_exceptions k = Some v"
  shows "v \<noteq> []" and "\<forall>c\<in>set v. \<not> isspace_char c"
    and "k \<noteq> []" and "bengali_to_english_map [hd k] \<noteq> None" and "3 \<le> length k"
proof -
  have "(k, v) \<in> set word_exceptions_entries"
    using assms unfolding word_exceptions_def by (rule map_of_SomeD)
  with exception_entries_checked
  have "v \<noteq> [] \<and> (\<forall>c\<in>set v. \<not> isspace_char c) \<and> k \<noteq> []
      \<and> bengali_to_english_map [hd k] \<noteq> None \<and> 3 \<le> length k"
    unfolding list_all_iff by blast
  then show "v \<noteq> []" and "\<forall>c\<in>set v. \<not> isspace_char c"
    and "k \<noteq> []" and "bengali_to_english_map [hd k] \<noteq> None" and "3 \<le> length k"
    by blast+
qed

lemma transliterate_character_no_space:
  "\<not> isspace_char c \<Longrightarrow> \<forall>x\<in>set (transliterate_character [c]). \<not> isspace_char x"
  by (auto simp: transliterate_character_def dest: map_entry(1) split: option.splits)

lemma transliterate_character_empty:
  "transliterate_character [c] = [] \<longleftrightarrow> c = virama"
proof
  assume "transliterate_character [c] = []"
  then show "c = virama"
    by (auto simp: transliterate_character_def dest: map_entry(2) split: option.splits)
next
  assume "c = virama"
  then show "transliterate_character [c] = []"
    by (simp add: transliterate_character_virama)
qed

lemma transliterate_character_unmapped:
  "bengali_to_english_map [c] = None \<Longrightarrow> transliterate_character [c] = [c]"
  by (simp add: transliterate_character_def)

lemma no_exception_three: "word_exceptions [X, virama, Y] = None"
  by (simp add: word_exceptions_def word_exceptions_entries_def virama_def)

lemma no_exception_five: "word_exceptions [X, virama, Y, virama, Z] = None"
  by (simp add: word_exceptions_def word_exceptions_entries_def virama_def)

section \<open>The partition of a text into runs\<close>

lemma concat_findall_runs: "concat (findall_runs t) = t"
  by (induction t rule: findall_runs.induct) simp_all

lemma findall_runs_hd:
  "findall_runs (x # xs) \<noteq> [] \<and> hd (hd (findall_runs (x # xs))) = x"
  by simp

lemma run_isspace: "run r \<Longrightarrow> isspace r \<longleftrightarrow> isspace_char (hd r)"
  by (cases r) (auto simp: run_def isspace_def list_all_iff)

lemma run_not_isspace: "run r \<Longrightarrow> \<not> isspace r \<Longrightarrow> \<forall>c\<in>set r. \<not> isspace_char c"
  by (cases r) (auto simp: run_def isspace_def list_all_iff)

lemma alternating_Cons:
  "alternating (r # rs) \<longleftrightarrow>
     run r \<and> (rs = [] \<or> (isspace r \<longleftrightarrow> \<not> isspace (hd rs))) \<and> alternating rs"
  by (cases rs) auto

lemma run_first_nonspace: "\<not> isspace_char c \<Longrightarrow> run (c # takeWhile (\<lambda>x. \<not> isspace_char x) cs)"
  by (auto simp: run_def list_all_iff dest: set_takeWhileD)

lemma run_first_space: "isspace_char c \<Longrightarrow> run (c # takeWhile isspace_char cs)"
  by (auto simp: run_def list_all_iff dest: set_takeWhileD)

lemma dropWhile_hd: "dropWhile P xs = y # ys \<Longrightarrow> \<not> P y"
  by (metis hd_dropWhile list.sel(1) list.distinct(1))

lemma alternating_findall_runs: "alternating (findall_runs t)"
proof (induction t rule: findall_runs.induct)
  case 1
  show ?case by simp
next
  case (2 c cs)
  show ?case
  proof (cases "isspace_char c")
    case False
    let ?rest = "dropWhile (\<lambda>x. \<not> isspace_char x) cs"
    have r: "run (c # takeWhile (\<lambda>x. \<not> isspace_char x) cs)"
      using False by (rule run_first_nonspace)
    have ns: "\<not> isspace (c # takeWhile (\<lambda>x. \<not> isspace_char x) cs)"
      using False by (simp add: isspace_def)
    have alt: "alternating (findall_runs ?rest)"
      using 2(1) False by simp
    have nxt: "findall_runs ?rest = [] \<or> isspace (hd (findall_runs ?rest))"
    proof (cases ?rest)
      case Nil show ?thesis unfolding Nil by simp
    next
      case (Cons y ys)
      then have y: "isspace_char y" using dropWhile_hd by fastforce
      have "findall_runs (y # ys) \<noteq> []"
        using findall_runs_hd by blast
      then obtain q qs where q: "findall_runs (y # ys) = q # qs"
        unfolding neq_Nil_conv by blast
      have "run (hd (findall_runs (y # ys)))"
        using alt unfolding Cons q by (simp add: alternating_Cons)
      moreover have "hd (hd (findall_runs (y # ys))) = y"
        using findall_runs_hd by blast
      ultimately show ?thesis
        unfolding Cons using y by (simp only: run_isspace simp_thms)
    qed
    show ?thesis
      using False r ns alt nxt by (auto simp: alternating_Cons)
  next
    case True
    let ?rest = "dropWhile isspace_char cs"
    have r: "run (c # takeWhile isspace_char cs)"
      using True by (rule run_first_space)
    have ns: "isspace (c # takeWhile isspace_char cs)"
      using True by (auto simp: isspace_def list_all_iff dest: set_takeWhileD)
    have alt: "alternating (findall_runs ?rest)"
      using 2(2) True by simp
    have nxt: "findall_runs ?rest = [] \<or> \<not> isspace (hd (findall_runs ?rest))"
    proof (cases ?rest)
      case Nil show ?thesis unfolding Nil by simp
    next
      case (Cons y ys)
      then have y: "\<not> isspace_char y" using dropWhile_hd by fastforce
      have "findall_runs (y # ys) \<noteq> []"
        using findall_runs_hd by blast
      then obtain q qs where q: "findall_runs (y # ys) = q # qs"
        unfolding neq_Nil_conv by blast
      have "run (hd (findall_runs (y # ys)))"
        using alt unfolding Cons q by (simp add: alternating_Cons)
      moreover have "hd (hd (findall_runs (y # ys))) = y"
        using findall_runs_hd by blast
      ultimately show ?thesis
        unfolding Cons using y by (simp only: run_isspace simp_thms)
    qed
    show ?thesis
      using True r ns alt nxt by (auto simp: alternating_Cons)
  qed
qed

lemma stop_at_head:
  "xs = [] \<or> \<not> P (hd xs) \<Longrightarrow> takeWhile P xs = [] \<and> dropWhile P xs = xs"
  by (cases xs) auto

lemma alternating_concat_head:
  assumes "alternating rs" and "rs \<noteq> []"
  shows "concat rs \<noteq> [] \<and> hd (concat rs) = hd (hd rs)"
  using assms by (cases rs) (auto simp: alternating_Cons run_def)

lemma findall_runs_concat: "alternating rs \<Longrightarrow> findall_runs (concat rs) = rs"
proof (induction rs)
  case Nil
  show ?case by simp
next
  case (Cons r rs)
  from Cons.prems have r: "run r" and alt: "alternating rs"
    and nxt: "rs = [] \<or> (isspace r \<longleftrightarrow> \<not> isspace (hd rs))"
    by (simp_all add: alternating_Cons)
  have ih: "findall_runs (concat rs) = rs" using Cons.IH alt by simp
  from r obtain c r' where rc: "r = c # r'" by (cases r) (auto simp: run_def)
  have hd_rest: "rs \<noteq> [] \<Longrightarrow> isspace (hd rs) \<longleftrightarrow> isspace_char (hd (concat rs))"
  proof -
    assume ne: "rs \<noteq> []"
    then have "run (hd rs)" using alt by (cases rs) (auto simp: alternating_Cons)
    then show ?thesis using alternating_concat_head[OF alt ne] by (simp add: run_isspace)
  qed
  show ?case
  proof (cases "isspace_char c")
    case False
    then have "\<not> isspace r" using r rc by (simp add: run_isspace)
    then have all: "\<forall>x\<in>set r'. \<not> isspace_char x"
      using run_not_isspace[OF r] rc by simp
    have "concat rs = [] \<or> \<not> (\<not> isspace_char (hd (concat rs)))"
      using nxt hd_rest \<open>\<not> isspace r\<close> by (cases "rs = []") auto
    then have stop: "takeWhile (\<lambda>x. \<not> isspace_char x) (concat rs) = []
        \<and> dropWhile (\<lambda>x. \<not> isspace_char x) (concat rs) = concat rs"
      by (rule stop_at_head)
    have "findall_runs (concat (r # rs)) = findall_runs (c # (r' @ concat rs))"
      by (simp add: rc)
    also have "\<dots> = (c # r') # findall_runs (concat rs)"
      using False all stop by simp
    finally show ?thesis by (simp add: ih rc)
  next
    case True
    then have sp: "isspace r" using r rc by (simp add: run_isspace)
    then have all: "\<forall>x\<in>set r'. isspace_char x"
      using rc by (simp add: isspace_def list_all_iff)
    have "concat rs = [] \<or> \<not> isspace_char (hd (concat rs))"
      using nxt hd_rest sp by (cases "rs = []") auto
    then have stop: "takeWhile isspace_char (concat rs) = []
        \<and> dropWhile isspace_char (concat rs) = concat rs"
      by (rule stop_at_head)
    have "findall_runs (concat (r # rs)) = findall_runs (c # (r' @ concat rs))"
      by (simp add: rc)
    also have "\<dots> = (c # r') # findall_runs (concat rs)"
      using True all stop by simp
    finally show ?thesis by (simp add: ih rc)
  qed
qed

section \<open>The word transliterator: the claims\<close>

lemma while_loop_start:
  "while_loop w (0, []) = concat (map (\<lambda>c. transliterate_character [c]) w)"
  using while_loop_eq[of 0 w "[]"] by simp

lemma transliterate_word_plain:
  "word_exceptions (strip w) = None \<Longrightarrow>
   transliterate_word w = concat (map (\<lambda>c. transliterate_character [c]) (strip w))"
  by (simp add: transliterate_word_def while_loop_start Let_def)

lemma loop_body_conjunct:
  "is_conjunct cw i \<Longrightarrow>
   loop_body cw (i, result) =
     (i + 3, result @ transliterate_character [cw ! i] @ transliterate_character [cw ! (i + 2)])"
  by (simp add: loop_body_def)

lemma loop_body_simple:
  "\<not> is_conjunct cw i \<Longrightarrow>
   loop_body cw (i, result) = (i + 1, result @ transliterate_character [cw ! i])"
  by (simp add: loop_body_def)

text \<open>
  C1. A word whose stripped form is the three characters \<open>[X, hasanta, Y]\<close> is
  transliterated as the mapping of \<open>X\<close> followed at once by the mapping of \<open>Y\<close>. No
  three-character key of the exception table has the hasanta in the middle, so the
  table is never hit on such a word, and the equation holds for all \<open>X\<close> and \<open>Y\<close>,
  mapped consonants among them. The scan takes the conjunct branch at \<open>i\<close> exactly when
  \<open>i \<le> length - 3\<close> and the character at \<open>i + 1\<close> is the hasanta; the branch appends
  the mapping of the character at \<open>i\<close> and then that of the character at \<open>i + 2\<close>,
  nothing for the hasanta, and moves \<open>i\<close> on by three.
\<close>

theorem conjunct_consonant_rule:
  "(strip w = [X, virama, Y] \<longrightarrow>
      transliterate_word w = transliterate_character [X] @ transliterate_character [Y])
   \<and> (is_conjunct cw i \<longleftrightarrow> int i \<le> int (length cw) - 3 \<and> cw ! (i + 1) = virama)
   \<and> (is_conjunct cw i \<longrightarrow>
        loop_body cw (i, result) =
          (i + 3, result @ transliterate_character [cw ! i]
                    @ transliterate_character [cw ! (i + 2)]))"
proof (intro conjI impI)
  assume s: "strip w = [X, virama, Y]"
  then have "word_exceptions (strip w) = None"
    by (simp only: no_exception_three)
  then show "transliterate_word w = transliterate_character [X] @ transliterate_character [Y]"
    by (simp add: transliterate_word_plain s transliterate_character_virama)
next
  show "is_conjunct cw i \<longleftrightarrow> int i \<le> int (length cw) - 3 \<and> cw ! (i + 1) = virama"
    by (auto simp: is_conjunct_def)
next
  assume "is_conjunct cw i"
  then show "loop_body cw (i, result) =
      (i + 3, result @ transliterate_character [cw ! i] @ transliterate_character [cw ! (i + 2)])"
    by (rule loop_body_conjunct)
qed

text \<open>The word \<open>[space, ka, hasanta, ta]\<close> gives \<open>kt\<close>.\<close>

theorem conjunct_consonant_rule_witness:
  "strip [0x20, 0x995, virama, 0x9A4] = [0x995, virama, 0x9A4]
   \<and> transliterate_word [0x20, 0x995, virama, 0x9A4] = of_ascii ''kt''
   \<and> is_conjunct [0x995, virama, 0x9A4] 0
   \<and> loop_body [0x995, virama, 0x9A4] (0, []) = (3, of_ascii ''kt'')"
  using conjunct_consonant_rule[of "[0x20, 0x995, virama, 0x9A4]" "0x995" "0x9A4"
      "[0x995, virama, 0x9A4]" 0 "[]"]
  by (simp add: strip_def isspace_char_def virama_def transliterate_character_def
      bengali_to_english_map_def transliteration_map_entries_def of_ascii_def)

text \<open>
  C2. When the stripped word is a key of the exception table, \<open>transliterate_word\<close>
  returns the value of the table as it is. The lookup is on the stripped word and
  nothing else: a word that is not a key goes to the scan. The two words of the spec
  give \<open>pother\<close> and \<open>bangla\<close>.
\<close>

theorem exception_precedence:
  "(word_exceptions (strip w) = Some v \<longrightarrow> transliterate_word w = v)
   \<and> (word_exceptions (strip w) = None \<longrightarrow>
        transliterate_word w = while_loop (strip w) (0, []))
   \<and> transliterate_word [0x9AA, 0x9A5, 0x9C7, 0x9B0] = of_ascii ''pother''
   \<and> transliterate_word [0x9AC, 0x9BE, 0x982, 0x9B2, 0x9BE] = of_ascii ''bangla''"
proof (intro conjI impI)
  show "transliterate_word [0x9AA, 0x9A5, 0x9C7, 0x9B0] = of_ascii ''pother''"
    by (simp add: transliterate_word_def strip_def isspace_char_def word_exceptions_def
        word_exceptions_entries_def)
  show "transliterate_word [0x9AC, 0x9BE, 0x982, 0x9B2, 0x9BE] = of_ascii ''bangla''"
    by (simp add: transliterate_word_def strip_def isspace_char_def word_exceptions_def
        word_exceptions_entries_def)
qed (simp_all add: transliterate_word_def Let_def)

text \<open>
  The key \<open>kobi\<close> between a space and a newline is found; followed by a danda it is
  not a key and the scan gives \<open>kbi.\<close>
\<close>

theorem exception_precedence_witness:
  "word_exceptions (strip [0x20, 0x995, 0x9AC, 0x9BF, 0xA]) = Some (of_ascii ''kobi'')
   \<and> transliterate_word [0x20, 0x995, 0x9AC, 0x9BF, 0xA] = of_ascii ''kobi''
   \<and> word_exceptions (strip [0x995, 0x9AC, 0x9BF, 0x964]) = None
   \<and> transliterate_word [0x995, 0x9AC, 0x9BF, 0x964] = of_ascii ''kbi.''"
proof -
  have a: "strip [0x20, 0x995, 0x9AC, 0x9BF, 0xA] = [0x995, 0x9AC, 0x9BF]"
    and b: "strip [0x995, 0x9AC, 0x9BF, 0x964] = [0x995, 0x9AC, 0x9BF, 0x964]"
    by (simp_all add: strip_def isspace_char_def)
  have c: "word_exceptions [0x995, 0x9AC, 0x9BF] = Some (of_ascii ''kobi'')"
    and d: "word_exceptions [0x995, 0x9AC, 0x9BF, 0x964] = None"
    by (simp_all add: word_exceptions_def word_exceptions_entries_def)
  have e: "while_loop [0x995, 0x9AC, 0x9BF, 0x964] (0, []) = of_ascii ''kbi.''"
    by (simp add: while_loop_start transliterate_character_def bengali_to_english_map_def
        transliteration_map_entries_def of_ascii_def)
  show ?thesis
    using exception_precedence[of "[0x20, 0x995, 0x9AC, 0x9BF, 0xA]" "of_ascii ''kobi''"]
      exception_precedence[of "[0x995, 0x9AC, 0x9BF, 0x964]"]
    by (simp add: a b c d e)
qed


subsection \<open>The states the scan visits\<close>











lemma visited_state: "(i, r) \<in> set (scan_states w (0, [])) \<Longrightarrow> i \<in> visited w"
  unfolding visited_def by force




text \<open>
  C5, as stated, fails. The space is not a key of the character map, and the word made
  of one space is transliterated to the empty string: the word is stripped first.
\<close>

theorem identity_fallback_counterexample:
  "bengali_to_english_map [0x20] = None \<and> transliterate_word [0x20] = []"
  by (simp add: bengali_to_english_map_def transliteration_map_entries_def
      transliterate_word_def strip_def isspace_char_def word_exceptions_def
      word_exceptions_entries_def while_loop.simps)

lemma no_exception_short: "length k < 3 \<Longrightarrow> word_exceptions k = None"
  using exception_entry(5)[of k] by (cases "word_exceptions k") auto

text \<open>
  C5, amended. The lookup of a character that is not a key of the character map is the
  identity, and for every such character that is not whitespace the one-character word
  is returned unchanged.
\<close>

theorem identity_fallback:
  "(bengali_to_english_map [c] = None \<longrightarrow> transliterate_character [c] = [c])
   \<and> (bengali_to_english_map [c] = None \<and> \<not> isspace_char c \<longrightarrow> transliterate_word [c] = [c])"
proof (intro conjI impI)
  assume "bengali_to_english_map [c] = None"
  then show "transliterate_character [c] = [c]"
    by (rule transliterate_character_unmapped)
next
  assume a: "bengali_to_english_map [c] = None \<and> \<not> isspace_char c"
  then have s: "strip [c] = [c]"
    by (simp add: strip_no_space)
  have "word_exceptions (strip [c]) = None"
    unfolding s by (rule no_exception_short) simp
  then show "transliterate_word [c] = [c]"
    using a by (simp add: transliterate_word_plain s transliterate_character_unmapped)
qed

text \<open>
  The Latin letter \<open>a\<close>.
\<close>

theorem identity_fallback_witness:
  "bengali_to_english_map [0x61] = None \<and> \<not> isspace_char 0x61
   \<and> transliterate_character [0x61] = [0x61] \<and> transliterate_word [0x61] = [0x61]"
  using identity_fallback[of "0x61"]
  by (simp add: bengali_to_english_map_def transliteration_map_entries_def isspace_char_def)

text \<open>
  C9. \<open>transliterate_word\<close> of a word is \<open>transliterate_word\<close> of its stripped form;
  whitespace added before and after a word does not change the result; a word of
  whitespace only gives the empty string; and no whitespace character is a key of the
  character map.
\<close>

theorem strip_before_transliteration:
  "transliterate_word w = transliterate_word (strip w)
   \<and> (list_all isspace_char a \<and> list_all isspace_char b \<longrightarrow>
        transliterate_word (a @ w @ b) = transliterate_word w)
   \<and> (list_all isspace_char w \<longrightarrow> transliterate_word w = [])
   \<and> (isspace_char c \<longrightarrow> bengali_to_english_map [c] = None)"
proof (intro conjI impI)
  show "transliterate_word w = transliterate_word (strip w)"
    by (simp only: transliterate_word_def strip_idem)
next
  assume "list_all isspace_char a \<and> list_all isspace_char b"
  then have "strip (a @ w @ b) = strip w"
    by (simp add: strip_pad)
  then show "transliterate_word (a @ w @ b) = transliterate_word w"
    by (simp only: transliterate_word_def)
next
  assume "list_all isspace_char w"
  then have s: "strip w = []"
    by (rule strip_all_space)
  have "word_exceptions (strip w) = None"
    unfolding s by (rule no_exception_short) simp
  then show "transliterate_word w = []"
    by (simp add: transliterate_word_plain s)
next
  assume "isspace_char c"
  then show "bengali_to_english_map [c] = None"
    by (rule space_not_key)
qed

text \<open>
  The letter ka between a space, a tab and a newline; the word of a space and a tab.
\<close>

theorem strip_before_transliteration_witness:
  "list_all isspace_char [0x20, 0x9] \<and> list_all isspace_char [0xA]
   \<and> transliterate_word ([0x20, 0x9] @ [0x995] @ [0xA]) = transliterate_word [0x995]
   \<and> transliterate_word [0x20, 0x9] = []
   \<and> isspace_char 0x20 \<and> bengali_to_english_map [0x20] = None"
  using strip_before_transliteration[of "[0x995]" "[0x20, 0x9]" "[0xA]" "0x20", THEN conjunct2]
    strip_before_transliteration[of "[0x20, 0x9]" "[]" "[]" "0x20", THEN conjunct2]
  by (simp add: isspace_char_def)

text \<open>
  C10, as stated, fails. The five-character word \<open>[space, hasanta, ka, hasanta, ka]\<close>
  is not a key of the exception table and none of its first, third and fifth characters
  is the hasanta, but the space is stripped before the scan: the result is \<open>kk\<close>, and
  the three lookups concatenated are a space followed by \<open>kk\<close>.
\<close>

theorem virama_chain_counterexample:
  "transliterate_word [0x20, 0x9CD, 0x995, 0x9CD, 0x995] = of_ascii ''kk''
   \<and> transliterate_character [0x20] @ transliterate_character [0x995]
       @ transliterate_character [0x995] = of_ascii '' kk''
   \<and> word_exceptions [0x20, 0x9CD, 0x995, 0x9CD, 0x995] = None"
  by (simp add: transliterate_word_def strip_def isspace_char_def word_exceptions_def
      word_exceptions_entries_def while_loop_start transliterate_character_def
      bengali_to_english_map_def transliteration_map_entries_def of_ascii_def)

text \<open>
  C10, amended. For every word whose stripped form is the five characters
  \<open>[X, hasanta, Y, hasanta, Z]\<close> the result is the three lookups concatenated (no such
  word is a key of the exception table). The scan takes three passes: the conjunct
  branch at index 0, which appends the lookups of \<open>X\<close> and \<open>Y\<close> and moves to 3; the simple
  substitution of the second hasanta at index 3, which appends nothing; the simple
  substitution of \<open>Z\<close> at index 4. One pass never takes more than three characters.
  The conjunct branch is taken at \<open>i\<close> for any character at \<open>i\<close> whenever the character at
  \<open>i + 1\<close> is the hasanta and there is a character at \<open>i + 2\<close>.
\<close>

theorem virama_chain:
  "(strip w = [X, virama, Y, virama, Z] \<longrightarrow>
      transliterate_word w =
        transliterate_character [X] @ transliterate_character [Y] @ transliterate_character [Z]
      \<and> loop_body (strip w) (0, []) =
          (3, transliterate_character [X] @ transliterate_character [Y])
      \<and> loop_body (strip w) (3, result) = (4, result)
      \<and> loop_body (strip w) (4, result) = (5, result @ transliterate_character [Z]))
   \<and> (i + 2 < length cw \<and> cw ! (i + 1) = virama \<longrightarrow>
        is_conjunct (cw[i := c]) i
        \<and> loop_body (cw[i := c]) (i, result) =
            (i + 3, result @ transliterate_character [c]
                      @ transliterate_character [cw ! (i + 2)]))"
proof (intro conjI impI)
  assume s: "strip w = [X, virama, Y, virama, Z]"
  then have "word_exceptions (strip w) = None"
    by (simp only: no_exception_five)
  then show "transliterate_word w =
      transliterate_character [X] @ transliterate_character [Y] @ transliterate_character [Z]"
    by (simp add: transliterate_word_plain s transliterate_character_virama)
  have "is_conjunct (strip w) 0"
    by (simp add: s is_conjunct_def)
  then show "loop_body (strip w) (0, []) =
      (3, transliterate_character [X] @ transliterate_character [Y])"
    by (simp add: loop_body_conjunct s)
  have "\<not> is_conjunct (strip w) 3"
    by (simp add: s is_conjunct_def)
  then show "loop_body (strip w) (3, result) = (4, result)"
    by (simp add: loop_body_simple s transliterate_character_virama)
  have "\<not> is_conjunct (strip w) 4"
    by (simp add: s is_conjunct_def)
  then show "loop_body (strip w) (4, result) = (5, result @ transliterate_character [Z])"
    by (simp add: loop_body_simple s)
next
  assume a: "i + 2 < length cw \<and> cw ! (i + 1) = virama"
  then show c: "is_conjunct (cw[i := c]) i"
    by (simp add: is_conjunct_def)
  show "loop_body (cw[i := c]) (i, result) =
      (i + 3, result @ transliterate_character [c] @ transliterate_character [cw ! (i + 2)])"
    using a by (simp add: loop_body_conjunct[OF c])
qed

text \<open>
  The cluster \<open>[na, hasanta, da, hasanta, ra]\<close> gives \<open>ndr\<close>; a vowel sign in front of a
  hasanta triggers the branch as a consonant does.
\<close>

theorem virama_chain_witness:
  "strip [0x9A8, virama, 0x9A6, virama, 0x9B0] = [0x9A8, virama, 0x9A6, virama, 0x9B0]
   \<and> transliterate_word [0x9A8, virama, 0x9A6, virama, 0x9B0] = of_ascii ''ndr''
   \<and> loop_body [0x9A8, virama, 0x9A6, virama, 0x9B0] (0, []) = (3, of_ascii ''nd'')
   \<and> loop_body [0x9A8, virama, 0x9A6, virama, 0x9B0] (3, of_ascii ''nd'') = (4, of_ascii ''nd'')
   \<and> loop_body [0x9A8, virama, 0x9A6, virama, 0x9B0] (4, of_ascii ''nd'') = (5, of_ascii ''ndr'')
   \<and> 0 + 2 < length [0x9A8, virama, 0x9A6] \<and> [0x9A8, virama, 0x9A6] ! (0 + 1) = virama
   \<and> is_conjunct ([0x9A8, virama, 0x9A6][0 := 0x9BE]) 0"
  using virama_chain[of "[0x9A8, virama, 0x9A6, virama, 0x9B0]" "0x9A8" "0x9A6" "0x9B0"
      "of_ascii ''nd''" 0 "[0x9A8, virama, 0x9A6]" "0x9BE"]
  by (simp add: strip_def isspace_char_def virama_def transliterate_character_def
      bengali_to_english_map_def transliteration_map_entries_def of_ascii_def)

section \<open>The text transliterator: the claims\<close>

lemma alternating_run: "alternating rs \<Longrightarrow> r \<in> set rs \<Longrightarrow> run r"
  by (induction rs) (auto simp: alternating_Cons)

lemma findall_runs_run: "r \<in> set (findall_runs t) \<Longrightarrow> run r"
  using alternating_findall_runs by (rule alternating_run)

lemma findall_runs_subset: "r \<in> set (findall_runs t) \<Longrightarrow> set r \<subseteq> set t"
proof -
  assume "r \<in> set (findall_runs t)"
  then have "set r \<subseteq> set (concat (findall_runs t))" by auto
  then show ?thesis by (simp only: concat_findall_runs)
qed

lemma exception_keys_checked:
  "list_all (\<lambda>(k, v). hd k \<noteq> virama) word_exceptions_entries"
  by (simp add: word_exceptions_entries_def virama_def)

lemma exception_key_hd: "word_exceptions k = Some v \<Longrightarrow> hd k \<noteq> virama"
proof -
  assume "word_exceptions k = Some v"
  then have "(k, v) \<in> set word_exceptions_entries"
    unfolding word_exceptions_def by (rule map_of_SomeD)
  with exception_keys_checked show ?thesis
    unfolding list_all_iff by blast
qed

lemma transliterate_word_no_space:
  assumes "\<forall>c\<in>set w. \<not> isspace_char c"
  shows "\<forall>x\<in>set (transliterate_word w). \<not> isspace_char x"
proof (cases "word_exceptions (strip w)")
  case (Some v)
  then show ?thesis
    using exception_entry(2)[OF Some] by (simp add: transliterate_word_def)
next
  case None
  have "\<forall>c\<in>set (strip w). \<not> isspace_char c"
    using assms set_strip by blast
  then show ?thesis
    using transliterate_character_no_space by (auto simp: transliterate_word_plain[OF None])
qed

lemma transliterate_word_empty:
  assumes "\<forall>c\<in>set w. \<not> isspace_char c"
  shows "transliterate_word w = [] \<longleftrightarrow> (\<forall>c\<in>set w. c = virama)"
proof -
  have s: "strip w = w" using assms by (rule strip_no_space)
  show ?thesis
  proof (cases "word_exceptions w")
    case (Some v)
    have "hd w \<in> set w" using exception_entry(3)[OF Some] by simp
    moreover have "hd w \<noteq> virama" using Some by (rule exception_key_hd)
    moreover have "transliterate_word w \<noteq> []"
      using exception_entry(1)[OF Some] Some by (simp add: transliterate_word_def s)
    ultimately show ?thesis by blast
  next
    case None
    then have "transliterate_word w = concat (map (\<lambda>c. transliterate_character [c]) w)"
      using transliterate_word_plain[of w] by (simp add: s)
    then show ?thesis
      by (simp add: transliterate_character_empty)
  qed
qed

lemma token_space: "isspace r \<Longrightarrow> transliterate_token r = r"
  by (simp add: transliterate_token_def)

lemma token_run:
  assumes r: "run r" and ne: "\<exists>c\<in>set r. c \<noteq> virama"
  shows "run (transliterate_token r) \<and> (isspace (transliterate_token r) \<longleftrightarrow> isspace r)"
proof (cases "isspace r")
  case True
  then show ?thesis using r by (simp add: token_space)
next
  case False
  have all: "\<forall>c\<in>set r. \<not> isspace_char c"
    using r False by (rule run_not_isspace)
  have t: "transliterate_token r = transliterate_word r"
    using False by (simp add: transliterate_token_def)
  have a: "transliterate_word r \<noteq> []"
    using transliterate_word_empty[OF all] ne by blast
  have b: "\<forall>x\<in>set (transliterate_word r). \<not> isspace_char x"
    using all by (rule transliterate_word_no_space)
  have "run (transliterate_word r)"
    using a b by (simp add: run_def list_all_iff)
  moreover have "\<not> isspace (transliterate_word r)"
    using a b by (cases "transliterate_word r") (auto simp: isspace_def)
  ultimately show ?thesis using False t by simp
qed

lemma alternating_tokens:
  "alternating rs \<Longrightarrow> \<forall>r\<in>set rs. \<exists>c\<in>set r. c \<noteq> virama \<Longrightarrow>
   alternating (map transliterate_token rs)"
proof (induction rs)
  case Nil
  show ?case by simp
next
  case (Cons r rs)
  from Cons.prems(1) have r: "run r" and alt: "alternating rs"
    and nxt: "rs = [] \<or> (isspace r \<longleftrightarrow> \<not> isspace (hd rs))"
    by (simp_all add: alternating_Cons)
  have tr: "run (transliterate_token r) \<and> (isspace (transliterate_token r) \<longleftrightarrow> isspace r)"
    using r Cons.prems(2) by (intro token_run) simp_all
  have ih: "alternating (map transliterate_token rs)"
    using Cons.IH alt Cons.prems(2) by simp
  have "map transliterate_token rs = [] \<or>
      (isspace (transliterate_token r) \<longleftrightarrow> \<not> isspace (hd (map transliterate_token rs)))"
  proof (cases rs)
    case Nil
    then show ?thesis by simp
  next
    case (Cons q qs)
    have "run q" using alt Cons by (simp add: alternating_Cons)
    moreover have "\<exists>c\<in>set q. c \<noteq> virama" using Cons.prems(2) Cons by simp
    ultimately have "isspace (transliterate_token q) \<longleftrightarrow> isspace q"
      using token_run by blast
    then show ?thesis using nxt tr Cons by simp
  qed
  then show ?case
    using tr ih by (simp add: alternating_Cons)
qed

lemma filter_space_token:
  "run r \<Longrightarrow> filter isspace_char (transliterate_token r) = filter isspace_char r"
proof (cases "isspace r")
  case True
  then show ?thesis by (simp add: token_space)
next
  case False
  assume "run r"
  then have all: "\<forall>c\<in>set r. \<not> isspace_char c"
    using False by (rule run_not_isspace)
  then have "\<forall>x\<in>set (transliterate_word r). \<not> isspace_char x"
    by (rule transliterate_word_no_space)
  then show ?thesis
    using all False by (simp add: transliterate_token_def filter_empty_conv[THEN iffD2])
qed

lemma filter_space_text:
  "filter isspace_char (transliterate_text t) = filter isspace_char t"
proof -
  have "filter isspace_char (transliterate_text t)
      = concat (map (\<lambda>r. filter isspace_char (transliterate_token r)) (findall_runs t))"
    by (simp add: transliterate_text_def filter_concat comp_def)
  also have "\<dots> = concat (map (filter isspace_char) (findall_runs t))"
    by (rule arg_cong[where f=concat], rule map_cong)
       (simp_all add: filter_space_token findall_runs_run)
  also have "\<dots> = filter isspace_char (concat (findall_runs t))"
    by (simp add: filter_concat)
  finally show ?thesis by (simp only: concat_findall_runs)
qed

text \<open>
  C3, as stated, fails. The text \<open>[space, hasanta, space]\<close> has two whitespace runs of
  one space each, around a run made of the hasanta alone. That run is transliterated to
  the empty string, and the output is two spaces: one whitespace run of length two.
\<close>

theorem whitespace_structure_counterexample:
  "findall_runs [0x20, 0x9CD, 0x20] = [[0x20], [0x9CD], [0x20]]
   \<and> transliterate_text [0x20, 0x9CD, 0x20] = [0x20, 0x20]
   \<and> findall_runs [0x20, 0x20] = [[0x20, 0x20]]"
  by (simp add: transliterate_text_def transliterate_token_def isspace_def isspace_char_def
      transliterate_word_def strip_def word_exceptions_def word_exceptions_entries_def
      while_loop_start transliterate_character_def bengali_to_english_map_def
      transliteration_map_entries_def of_ascii_def)

text \<open>
  C3, amended. The partition of a text into runs rejoins to the text; its runs are
  non-empty, of one class each, and alternate, so they are the maximal runs;
  \<open>transliterate_text\<close> is the concatenation, in order, of the runs with each whitespace
  run unchanged and each other run replaced by its \<open>transliterate_word\<close> image; the
  whitespace characters of the output are those of the text, in the same order; and when
  every run has a character other than the hasanta (a whitespace run always has), the
  runs of the output are exactly the images of the runs of the text, so the whitespace
  runs are the same in count, position and length. The empty text gives the empty text.
\<close>

theorem whitespace_structure:
  "concat (findall_runs T) = T
   \<and> alternating (findall_runs T)
   \<and> transliterate_text T = concat (map transliterate_token (findall_runs T))
   \<and> (\<forall>r\<in>set (findall_runs T).
        transliterate_token r = (if isspace r then r else transliterate_word r))
   \<and> filter isspace_char (transliterate_text T) = filter isspace_char T
   \<and> ((\<forall>r\<in>set (findall_runs T). \<exists>c\<in>set r. c \<noteq> virama) \<longrightarrow>
        findall_runs (transliterate_text T) = map transliterate_token (findall_runs T))
   \<and> transliterate_text [] = []"
proof (intro conjI impI)
  show "concat (findall_runs T) = T"
    by (rule concat_findall_runs)
  show "alternating (findall_runs T)"
    by (rule alternating_findall_runs)
  show "transliterate_text T = concat (map transliterate_token (findall_runs T))"
    by (simp only: transliterate_text_def)
  show "\<forall>r\<in>set (findall_runs T).
      transliterate_token r = (if isspace r then r else transliterate_word r)"
    by (simp add: transliterate_token_def)
  show "filter isspace_char (transliterate_text T) = filter isspace_char T"
    by (rule filter_space_text)
  show "transliterate_text [] = []"
    by (simp add: transliterate_text_def)
next
  assume "\<forall>r\<in>set (findall_runs T). \<exists>c\<in>set r. c \<noteq> virama"
  then have "alternating (map transliterate_token (findall_runs T))"
    using alternating_findall_runs by (intro alternating_tokens)
  then show "findall_runs (transliterate_text T) = map transliterate_token (findall_runs T)"
    unfolding transliterate_text_def by (rule findall_runs_concat)
qed

text \<open>
  The text \<open>ami\<close>, two spaces, \<open>[ka, hasanta, ta]\<close>: three runs before and after.
\<close>

theorem whitespace_structure_witness:
  "findall_runs [0x986, 0x9AE, 0x9BF, 0x20, 0x20, 0x995, 0x9CD, 0x9A4]
     = [[0x986, 0x9AE, 0x9BF], [0x20, 0x20], [0x995, 0x9CD, 0x9A4]]
   \<and> list_all (list_ex (\<lambda>c. c \<noteq> virama))
        (findall_runs [0x986, 0x9AE, 0x9BF, 0x20, 0x20, 0x995, 0x9CD, 0x9A4])
   \<and> findall_runs (transliterate_text [0x986, 0x9AE, 0x9BF, 0x20, 0x20, 0x995, 0x9CD, 0x9A4])
     = [of_ascii ''ami'', [0x20, 0x20], of_ascii ''kt'']"
proof -
  have runs: "findall_runs [0x986, 0x9AE, 0x9BF, 0x20, 0x20, 0x995, 0x9CD, 0x9A4]
      = [[0x986, 0x9AE, 0x9BF], [0x20, 0x20], [0x995, 0x9CD, 0x9A4]]"
    by (simp add: isspace_char_def)
  have a: "transliterate_token [0x986, 0x9AE, 0x9BF] = of_ascii ''ami''"
    and b: "transliterate_token [0x20, 0x20] = [0x20, 0x20]"
    and c: "transliterate_token [0x995, 0x9CD, 0x9A4] = of_ascii ''kt''"
    by (simp_all add: transliterate_token_def isspace_def isspace_char_def
        transliterate_word_def strip_def word_exceptions_def word_exceptions_entries_def
        while_loop_start transliterate_character_def bengali_to_english_map_def
        transliteration_map_entries_def of_ascii_def)
  have h: "\<forall>r\<in>set (findall_runs [0x986, 0x9AE, 0x9BF, 0x20, 0x20, 0x995, 0x9CD, 0x9A4]).
      \<exists>c\<in>set r. c \<noteq> virama"
    unfolding runs by (simp add: virama_def)
  have "findall_runs (transliterate_text [0x986, 0x9AE, 0x9BF, 0x20, 0x20, 0x995, 0x9CD, 0x9A4])
      = map transliterate_token
          (findall_runs [0x986, 0x9AE, 0x9BF, 0x20, 0x20, 0x995, 0x9CD, 0x9A4])"
    using whitespace_structure[of "[0x986, 0x9AE, 0x9BF, 0x20, 0x20, 0x995, 0x9CD, 0x9A4]"] h
    by blast
  then have "findall_runs
      (transliterate_text [0x986, 0x9AE, 0x9BF, 0x20, 0x20, 0x995, 0x9CD, 0x9A4])
      = [of_ascii ''ami'', [0x20, 0x20], of_ascii ''kt'']"
    by (simp only: runs list.map a b c)
  moreover have "list_all (list_ex (\<lambda>c. c \<noteq> virama))
      (findall_runs [0x986, 0x9AE, 0x9BF, 0x20, 0x20, 0x995, 0x9CD, 0x9A4])"
    using h unfolding list_all_iff list_ex_iff .
  ultimately show ?thesis using runs by (intro conjI)
qed

text \<open>
  C6. A text none of whose characters is a key of the character map is returned
  unchanged. The two other conditions of the claim follow from this one: the hasanta is
  a key of the character map, and every key of the exception table begins with a
  character that is a key of the character map, so no run of such a text is one.
\<close>

theorem identity_on_unmapped_text:
  assumes "\<forall>c\<in>set T. bengali_to_english_map [c] = None"
  shows "transliterate_text T = T"
proof -
  have "transliterate_token r = r" if r: "r \<in> set (findall_runs T)" for r
  proof (cases "isspace r")
    case True
    then show ?thesis by (rule token_space)
  next
    case False
    have "run r" using r by (rule findall_runs_run)
    then have all: "\<forall>c\<in>set r. \<not> isspace_char c"
      using False by (rule run_not_isspace)
    then have s: "strip r = r" by (rule strip_no_space)
    have un: "\<forall>c\<in>set r. bengali_to_english_map [c] = None"
      using assms findall_runs_subset[OF r] by blast
    have "word_exceptions r = None"
    proof (rule ccontr)
      assume "word_exceptions r \<noteq> None"
      then obtain v where v: "word_exceptions r = Some v" by auto
      have "hd r \<in> set r" using exception_entry(3)[OF v] by simp
      then have "bengali_to_english_map [hd r] = None" using un by simp
      then show False using exception_entry(4)[OF v] by simp
    qed
    then have "transliterate_word r = concat (map (\<lambda>c. transliterate_character [c]) r)"
      using transliterate_word_plain[of r] by (simp add: s)
    also have "\<dots> = concat (map (\<lambda>c. [c]) r)"
      by (rule arg_cong[where f=concat], rule map_cong)
         (simp_all add: un transliterate_character_unmapped)
    also have "\<dots> = r"
      by (induction r) simp_all
    finally show ?thesis using False by (simp add: transliterate_token_def)
  qed
  then have "map transliterate_token (findall_runs T) = findall_runs T"
    by (simp add: map_idI)
  then show ?thesis
    by (simp add: transliterate_text_def concat_findall_runs)
qed

text \<open>
  A Latin text with a double space.
\<close>

theorem identity_on_unmapped_text_witness:
  "list_all (\<lambda>c. bengali_to_english_map [c] = None) (of_ascii ''Hi  you'')
   \<and> transliterate_text (of_ascii ''Hi  you'') = of_ascii ''Hi  you''"
proof -
  have h: "\<forall>c\<in>set (of_ascii ''Hi  you''). bengali_to_english_map [c] = None"
    by (simp add: of_ascii_def bengali_to_english_map_def transliteration_map_entries_def)
  show ?thesis
    using h identity_on_unmapped_text[OF h] by (simp only: list_all_iff simp_thms)
qed

section \<open>Text extraction: the claims\<close>

lemma ocr_calls_print_line: "ocr_calls (print_line m s) = ocr_calls s"
  by (simp add: print_line_def)

text \<open>
  C7. The test of \<open>smart_extract_text_from_pdf\<close> is that the stripped text is longer than
  50 characters and has an alphanumeric character. When the direct extraction returns
  a text that passes the test, that text is returned and the OCR extraction is not
  invoked; no invocation of the OCR extraction happens exactly in that case. When the
  text fails the test (a stripped length of 50 or less fails it) the OCR extraction is
  invoked and the value returned or the exception raised is the outcome of the last
  invocation made; it is the outcome of the first whenever the first returns. When the
  direct extraction raises, the OCR extraction is invoked once and its outcome is the
  outcome of the call.
\<close>

theorem fallback_decision:
  "(meaningful isalnum text \<longleftrightarrow>
      50 < length (strip text) \<and> (\<exists>c\<in>set (strip text). isalnum c))
   \<and> (meaningful isalnum text \<longrightarrow>
        smart_extract_text_from_pdf isalnum (Inr text) ocr s
          = (Inr text, print_line RegularSuccessful s))
   \<and> (ocr_calls (snd (smart_extract_text_from_pdf isalnum (Inr text) ocr s)) = ocr_calls s
        \<longleftrightarrow> meaningful isalnum text)
   \<and> (\<not> meaningful isalnum text \<longrightarrow>
        ocr_calls s < ocr_calls (snd (smart_extract_text_from_pdf isalnum (Inr text) ocr s))
        \<and> fst (smart_extract_text_from_pdf isalnum (Inr text) ocr s)
          = ocr (ocr_calls (snd (smart_extract_text_from_pdf isalnum (Inr text) ocr s)) - 1))
   \<and> (\<not> meaningful isalnum text \<and> ocr (ocr_calls s) = Inr t \<longrightarrow>
        fst (smart_extract_text_from_pdf isalnum (Inr text) ocr s) = Inr t
        \<and> ocr_calls (snd (smart_extract_text_from_pdf isalnum (Inr text) ocr s))
          = ocr_calls s + 1)
   \<and> (length (strip text) \<le> 50 \<longrightarrow> \<not> meaningful isalnum text)
   \<and> fst (smart_extract_text_from_pdf isalnum (Inl e) ocr s) = ocr (ocr_calls s)
   \<and> ocr_calls (snd (smart_extract_text_from_pdf isalnum (Inl e) ocr s)) = ocr_calls s + 1"
proof -
  have m: "meaningful isalnum text \<longleftrightarrow>
      50 < length (strip text) \<and> (\<exists>c\<in>set (strip text). isalnum c)"
    by (simp add: meaningful_def Let_def list_ex_iff)
  have yes: "smart_extract_text_from_pdf isalnum (Inr text) ocr s
      = (Inr text, print_line RegularSuccessful s)" if "meaningful isalnum text"
    using that by (simp add: smart_extract_text_from_pdf_def)
  have no: "ocr_calls s < ocr_calls (snd (smart_extract_text_from_pdf isalnum (Inr text) ocr s))
      \<and> fst (smart_extract_text_from_pdf isalnum (Inr text) ocr s)
        = ocr (ocr_calls (snd (smart_extract_text_from_pdf isalnum (Inr text) ocr s)) - 1)"
    if "\<not> meaningful isalnum text"
    using that
    by (cases "ocr (ocr_calls s)")
       (simp_all add: smart_extract_text_from_pdf_def extract_text_from_pdf_with_ocr_def
         except_clause_def ocr_calls_print_line)
  have first: "fst (smart_extract_text_from_pdf isalnum (Inr text) ocr s) = Inr t
      \<and> ocr_calls (snd (smart_extract_text_from_pdf isalnum (Inr text) ocr s)) = ocr_calls s + 1"
    if "\<not> meaningful isalnum text \<and> ocr (ocr_calls s) = Inr t"
    using that
    by (simp add: smart_extract_text_from_pdf_def extract_text_from_pdf_with_ocr_def
        ocr_calls_print_line)
  have raised: "fst (smart_extract_text_from_pdf isalnum (Inl e) ocr s) = ocr (ocr_calls s)
      \<and> ocr_calls (snd (smart_extract_text_from_pdf isalnum (Inl e) ocr s)) = ocr_calls s + 1"
    by (simp add: smart_extract_text_from_pdf_def extract_text_from_pdf_with_ocr_def
        except_clause_def ocr_calls_print_line)
  have iff: "ocr_calls (snd (smart_extract_text_from_pdf isalnum (Inr text) ocr s)) = ocr_calls s
      \<longleftrightarrow> meaningful isalnum text"
    using yes no by (cases "meaningful isalnum text") (auto simp: ocr_calls_print_line)
  show ?thesis
    using m yes no first raised iff by auto
qed

text \<open>
  A text layer of a space and 51 letters is returned as it is; a text layer of ten
  characters and a newline goes to the OCR extraction, invoked once.
\<close>

theorem fallback_decision_witness:
  "meaningful (\<lambda>c. c = 0x61) (0x20 # replicate 51 0x61)
   \<and> smart_extract_text_from_pdf (\<lambda>c. c = 0x61) (Inr (0x20 # replicate 51 0x61))
        (\<lambda>k. Inr [0x62]) world0
      = (Inr (0x20 # replicate 51 0x61), \<lparr>ocr_calls = 0, printed = [RegularSuccessful]\<rparr>)
   \<and> length (strip (of_ascii ''page 1 / 1'' @ [0xA])) \<le> 50
   \<and> \<not> meaningful (\<lambda>c. c = 0x61) (of_ascii ''page 1 / 1'' @ [0xA])
   \<and> fst (smart_extract_text_from_pdf (\<lambda>c. c = 0x61) (Inr (of_ascii ''page 1 / 1'' @ [0xA]))
        (\<lambda>k. Inr [0x62]) world0) = Inr [0x62]
   \<and> ocr_calls (snd (smart_extract_text_from_pdf (\<lambda>c. c = 0x61)
        (Inr (of_ascii ''page 1 / 1'' @ [0xA])) (\<lambda>k. Inr [0x62]) world0)) = 1"
proof -
  have s1: "strip (0x20 # replicate 51 0x61) = replicate 51 0x61"
  proof -
    have "strip ([0x20] @ replicate 51 0x61 @ []) = strip (replicate 51 0x61)"
      by (rule strip_pad) (simp_all add: isspace_char_def)
    moreover have "strip (replicate 51 0x61) = replicate 51 0x61"
      by (rule strip_no_space) (simp add: isspace_char_def)
    ultimately show ?thesis by simp
  qed
  have m1: "50 < length (strip (0x20 # replicate 51 0x61))
      \<and> (\<exists>c\<in>set (strip (0x20 # replicate 51 0x61)). c = 0x61)"
    by (simp add: s1)
  have l2: "length (strip (of_ascii ''page 1 / 1'' @ [0xA])) \<le> 50"
    by (simp add: strip_def of_ascii_def isspace_char_def)
  show ?thesis
    using m1 l2
      fallback_decision[of "\<lambda>c. c = 0x61" "0x20 # replicate 51 0x61" "\<lambda>k. Inr [0x62]"
        world0 "[0x62]"]
      fallback_decision[of "\<lambda>c. c = 0x61" "of_ascii ''page 1 / 1'' @ [0xA]" "\<lambda>k. Inr [0x62]"
        world0 "[0x62]"]
    by (simp add: world0_def print_line_def)
qed

text \<open>
  C8 on an empty text layer with an OCR extraction that raises. The call in the \<open>else\<close>
  branch is inside the \<open>try\<close>: its exception is caught, reported as a failure of the
  regular extraction, and the OCR extraction is invoked a second time. When the second
  invocation raises as well, its exception is the one that reaches the caller; when it
  returns, the caller gets a text and no exception at all.
\<close>

theorem ocr_failure_retried:
  "smart_extract_text_from_pdf (\<lambda>c. True) (Inr []) (\<lambda>k. Inl (Exception ''Error performing OCR on PDF'')) world0
     = (Inl (Exception ''Error performing OCR on PDF''),
        \<lparr>ocr_calls = 2,
         printed = [SwitchingToOcr, RegularFailed (Exception ''Error performing OCR on PDF''), TryingOcr]\<rparr>)
   \<and> smart_extract_text_from_pdf (\<lambda>c. True) (Inr [])
       (\<lambda>k. if k = 0 then Inl (Exception ''Error performing OCR on PDF'') else Inr [0x995]) world0
     = (Inr [0x995],
        \<lparr>ocr_calls = 2,
         printed = [SwitchingToOcr, RegularFailed (Exception ''Error performing OCR on PDF''), TryingOcr]\<rparr>)"
  by (simp add: smart_extract_text_from_pdf_def meaningful_def strip_def except_clause_def
      extract_text_from_pdf_with_ocr_def print_line_def world0_def)

end
